theory Spec2Isabelle
  imports Main "HOL-Library.Word" "HOL-Library.Signed_Division"
begin

section \<open>The clock\<close>

text \<open>
  \<^verbatim>\<open>int64_t\<close> is a 64-bit word: \<open>+\<close> and \<open>*\<close> wrap, \<open><s\<close> is the signed comparison.
  \<^verbatim>\<open>getNow\<close> fills a \<^verbatim>\<open>timeval\<close> from \<^verbatim>\<open>gettimeofday\<close>; the value the operating system
  hands back is the parameter \<open>tv\<close> of \<open>getNowMs\<close>.
\<close>

type_synonym int64_t = "64 word"

record timeval =
  tv_sec :: int64_t
  tv_usec :: int64_t

definition getNowMs :: "timeval \<Rightarrow> int64_t" where
  "getNowMs tv = tv_sec tv * 1000 + word_of_int (sint (tv_usec tv) sdiv 1000)"

section \<open>Packaged tasks and their shared state\<close>

text \<open>
  A \<^verbatim>\<open>std::packaged_task<RetType()>\<close> holds the bound callable and the shared state that
  its future reads. The callable acts on the world \<open>'w\<close> of the caller's side effects and
  either returns a value (\<open>Inr\<close>) or throws (\<open>Inl\<close>). Invoking the packaged task runs the
  callable and stores its value or its exception in the shared state; invoking it when
  the shared state is already set throws \<^verbatim>\<open>std::future_error\<close>.
\<close>

datatype error = future_error | invalid_pointer | system_error

record ('w, 'e, 'r) packaged_task =
  stored :: "'w \<Rightarrow> ('e + 'r) \<times> 'w"
  shared :: "('e + 'r) option"

definition invoke ::
  "('w, 'e, 'r) packaged_task \<Rightarrow> 'w \<Rightarrow> error + (('w, 'e, 'r) packaged_task \<times> 'w)" where
  "invoke pt w =
     (case shared pt of
        Some r \<Rightarrow> Inl future_error
      | None \<Rightarrow> (case stored pt w of (res, w') \<Rightarrow> Inr (pt\<lparr>shared := Some res\<rparr>, w')))"

section \<open>The pool and the threads around it\<close>

text \<open>
  \<^verbatim>\<open>TaskFunc\<close>: \<open>func\<close> is the closure \<^verbatim>\<open>[task]() { (*task)(); }\<close>, that is the address of the
  captured packaged task in the heap; \<open>expireTime\<close> is \<^verbatim>\<open>_expireTime\<close>. The constructor
  takes a \<^verbatim>\<open>uint64_t\<close> and stores it in an \<^verbatim>\<open>int64_t\<close>: the same 64 bits.
\<close>

record TaskFunc =
  func :: nat
  expireTime :: int64_t

text \<open>A \<^verbatim>\<open>std::thread\<close> handle: \<open>Some tid\<close> is joinable and stands for thread \<open>tid\<close>.\<close>

type_synonym thread = "nat option"

definition joinable :: "thread \<Rightarrow> bool" where
  "joinable t = (t \<noteq> None)"

text \<open>
  Where a worker thread stands inside \<^verbatim>\<open>ThreadPool::run\<close>: at the loop test, at the call of
  \<^verbatim>\<open>get\<close>, before \<^verbatim>\<open>++atomic_\<close> with the task it got, at the \<^verbatim>\<open>try\<close> block, before
  \<^verbatim>\<open>--atomic_\<close>, or after the loop.
\<close>

datatype worker_pc = AtWhile | AtGet | AtIncr TaskFunc | AtTry TaskFunc | AtDecr | Exited

text \<open>
  The members of \<^verbatim>\<open>ThreadPool\<close> (the trailing underscore of the C++ names is dropped).
  \<^verbatim>\<open>mutex_\<close> and \<^verbatim>\<open>condition_\<close> carry no data: a critical section is one atomic function,
  and a wait on the condition variable is a step that is not enabled.
\<close>

record ThreadPool =
  tasks :: "TaskFunc list"
  threads :: "thread list"
  worker :: thread
  threadNum :: nat
  bTerminate :: bool
  atomic :: int
  TNOWMS :: int64_t

text \<open>
  The pool together with what lives outside the object: the heap of packaged tasks
  (a future is the address of its packaged task), the world the work items act on, and
  the threads spawned so far, by thread id.
\<close>

record ('w, 'e, 'r) system = ThreadPool +
  heap :: "('w, 'e, 'r) packaged_task list"
  world :: 'w
  procs :: "worker_pc list"

definition new_ThreadPool :: "timeval \<Rightarrow> 'w \<Rightarrow> ('w, 'e, 'r) system" where
  "new_ThreadPool tv w =
     \<lparr>tasks = [], threads = [], worker = None, threadNum = 1, bTerminate = False,
      atomic = 0, TNOWMS = getNowMs tv, heap = [], world = w, procs = []\<rparr>"

definition getThreadNum :: "'a ThreadPool_scheme \<Rightarrow> nat" where
  "getThreadNum p = length (threads p)"

definition getJobNum :: "'a ThreadPool_scheme \<Rightarrow> nat" where
  "getJobNum p = length (tasks p)"

definition isTerminate :: "'a ThreadPool_scheme \<Rightarrow> bool" where
  "isTerminate p = bTerminate p"

definition init :: "nat \<Rightarrow> 'a ThreadPool_scheme \<Rightarrow> bool \<times> 'a ThreadPool_scheme" where
  "init num p = (if threads p \<noteq> [] then (False, p) else (True, p\<lparr>threadNum := num\<rparr>))"

text \<open>
  One round of the loop of \<^verbatim>\<open>start\<close>: \<^verbatim>\<open>worker_ = thread(&ThreadPool::run, this)\<close> creates a
  thread that stands at the loop test of \<^verbatim>\<open>run\<close>, and \<^verbatim>\<open>emplace_back(std::move(worker_))\<close>
  moves the handle to the back of the vector, which leaves \<^verbatim>\<open>worker_\<close> not joinable.
\<close>

definition spawn :: "('w, 'e, 'r) system \<Rightarrow> ('w, 'e, 'r) system" where
  "spawn s =
     (let s1 = s\<lparr>procs := procs s @ [AtWhile], worker := Some (length (procs s))\<rparr>
      in s1\<lparr>threads := threads s1 @ [worker s1], worker := None\<rparr>)"

text \<open>
  The loop of \<^verbatim>\<open>start\<close>, with \<open>n\<close> rounds to go. \<open>avail\<close> is the number of threads the
  operating system still grants: at 0 the constructor of \<^verbatim>\<open>std::thread\<close> throws
  \<^verbatim>\<open>std::system_error\<close>, which \<^verbatim>\<open>start\<close> neither catches nor undoes. The boolean is false
  when the loop was left by that exception; the handles created before it stay in the
  vector.
\<close>

fun spawn_loop :: "nat \<Rightarrow> nat \<Rightarrow> ('w, 'e, 'r) system \<Rightarrow> bool \<times> ('w, 'e, 'r) system" where
  "spawn_loop 0 avail s = (True, s)"
| "spawn_loop (Suc n) avail s =
     (if avail = 0 then (False, s) else spawn_loop n (avail - 1) (spawn s))"

text \<open>
  \<^verbatim>\<open>start()\<close> when the operating system grants \<open>avail\<close> threads: \<open>Inr\<close> the boolean returned,
  \<open>Inl system_error\<close> the exception that leaves \<^verbatim>\<open>start\<close>, in both cases with the pool as
  the call leaves it.
\<close>

definition start ::
  "nat \<Rightarrow> ('w, 'e, 'r) system \<Rightarrow> (error + bool) \<times> ('w, 'e, 'r) system" where
  "start avail s =
     (if threads s \<noteq> [] then (Inr False, s)
      else (case spawn_loop (threadNum s) avail s of
              (done, s') \<Rightarrow> (if done then Inr True else Inl system_error, s')))"

text \<open>
  \<^verbatim>\<open>exec(timeoutMs, f, args...)\<close>: \<open>f\<close> is the callable already bound to its arguments. The
  future returned is the address of the new packaged task. The sum \<^verbatim>\<open>TNOWMS + timeoutMs\<close>
  wraps where the C++ addition would overflow.
\<close>

definition exec ::
  "int64_t \<Rightarrow> ('w \<Rightarrow> ('e + 'r) \<times> 'w) \<Rightarrow> ('w, 'e, 'r) system \<Rightarrow> nat \<times> ('w, 'e, 'r) system" where
  "exec timeoutMs f s =
     (let expireTime = (if timeoutMs = 0 then 0 else TNOWMS s + timeoutMs);
          task = length (heap s);
          s1 = s\<lparr>heap := heap s @ [\<lparr>stored = f, shared = None\<rparr>]\<rparr>;
          fPtr = \<lparr>func = task, expireTime = expireTime\<rparr>
      in (task, s1\<lparr>tasks := tasks s1 @ [fPtr]\<rparr>))"

definition exec0 ::
  "('w \<Rightarrow> ('e + 'r) \<times> 'w) \<Rightarrow> ('w, 'e, 'r) system \<Rightarrow> nat \<times> ('w, 'e, 'r) system" where
  "exec0 f s = exec 0 f s"

text \<open>
  \<^verbatim>\<open>future::get\<close> on the future with address \<open>fut\<close>: \<open>None\<close> while the shared state is not
  set (the caller blocks), \<open>Some (Inr v)\<close> the value, \<open>Some (Inl e)\<close> the exception rethrown.
\<close>

definition future_get :: "nat \<Rightarrow> ('w, 'e, 'r) system \<Rightarrow> ('e + 'r) option" where
  "future_get fut s = (if fut < length (heap s) then shared (heap s ! fut) else None)"

text \<open>
  \<^verbatim>\<open>get(task)\<close>, one critical section. \<open>None\<close>: the caller stays in \<^verbatim>\<open>condition_.wait\<close>,
  whose predicate \<^verbatim>\<open>bTerminate_ || !tasks_.empty()\<close> is false. Otherwise the result is the
  boolean returned, the out-parameter \<^verbatim>\<open>task\<close> and the pool.
\<close>

definition get ::
  "'a ThreadPool_scheme \<Rightarrow> (bool \<times> TaskFunc option \<times> 'a ThreadPool_scheme) option" where
  "get p =
     (if tasks p = [] \<and> \<not> (bTerminate p \<or> tasks p \<noteq> []) then None
      else if bTerminate p then Some (False, None, p)
      else (case tasks p of
              t # ts \<Rightarrow> Some (True, Some t, p\<lparr>tasks := ts\<rparr>)
            | [] \<Rightarrow> Some (False, None, p)))"

definition setpc :: "nat \<Rightarrow> worker_pc \<Rightarrow> ('w, 'e, 'r) system \<Rightarrow> ('w, 'e, 'r) system" where
  "setpc tid pc s = s\<lparr>procs := (procs s)[tid := pc]\<rparr>"

text \<open>
  The expiry test of \<^verbatim>\<open>run\<close>: \<^verbatim>\<open>task->_expireTime != 0 && task->_expireTime < TNOWMS\<close>.
\<close>

definition expired :: "TaskFunc \<Rightarrow> 'a ThreadPool_scheme \<Rightarrow> bool" where
  "expired task p = (expireTime task \<noteq> 0 \<and> expireTime task <s TNOWMS p)"

text \<open>
  \<^verbatim>\<open>run\<close>, one step of thread \<open>tid\<close>. \<open>None\<close>: no step (the thread waits inside \<^verbatim>\<open>get\<close>, or
  has left \<^verbatim>\<open>run\<close>, or does not exist). \<open>Some (Inl e)\<close>: the exception \<open>e\<close> leaves the
  \<^verbatim>\<open>try\<close> block through \<^verbatim>\<open>catch (std::exception &e) { throw; }\<close> and ends the process.
  The last step is \<^verbatim>\<open>--atomic_\<close> followed by the critical section that notifies the
  condition variable when \<^verbatim>\<open>atomic_ == 0 && tasks_.empty()\<close>; a notification changes no
  data. \<^verbatim>\<open>get\<close> returns true only together with a task, so the branch for true without
  a task is never taken. \<open>invalid_pointer\<close> stands for an envelope whose closure has no
  packaged task; \<^verbatim>\<open>exec\<close> builds none such.
\<close>

definition worker_step :: "nat \<Rightarrow> ('w, 'e, 'r) system \<Rightarrow> (error + ('w, 'e, 'r) system) option" where
  "worker_step tid s =
     (if \<not> tid < length (procs s) then None
      else case procs s ! tid of
        AtWhile \<Rightarrow> Some (Inr (if \<not> isTerminate s then setpc tid AtGet s else setpc tid Exited s))
      | AtGet \<Rightarrow>
          (case get s of
             None \<Rightarrow> None
           | Some (ok, task, s') \<Rightarrow>
               (case task of
                  Some t \<Rightarrow> Some (Inr (if ok then setpc tid (AtIncr t) s' else setpc tid AtWhile s'))
                | None \<Rightarrow> Some (Inr (setpc tid AtWhile s'))))
      | AtIncr task \<Rightarrow> Some (Inr (setpc tid (AtTry task) (s\<lparr>atomic := atomic s + 1\<rparr>)))
      | AtTry task \<Rightarrow>
          (if expired task s then Some (Inr (setpc tid AtDecr s))
           else if \<not> func task < length (heap s) then Some (Inl invalid_pointer)
           else (case invoke (heap s ! func task) (world s) of
                   Inl e \<Rightarrow> Some (Inl e)
                 | Inr (pt, w) \<Rightarrow>
                     Some (Inr (setpc tid AtDecr (s\<lparr>heap := (heap s)[func task := pt], world := w\<rparr>)))))
      | AtDecr \<Rightarrow> Some (Inr (setpc tid AtWhile (s\<lparr>atomic := atomic s - 1\<rparr>)))
      | Exited \<Rightarrow> None)"

text \<open>
  \<^verbatim>\<open>threads_[i].join()\<close> returns when thread \<open>tid\<close> has left \<^verbatim>\<open>run\<close>; the caller waits while
  that thread runs, and here nothing else runs meanwhile. \<open>None\<close>: the call never returns
  (the thread waits inside \<^verbatim>\<open>get\<close> and nobody wakes it, or an exception has ended the
  process).
\<close>

partial_function (option) join :: "nat \<Rightarrow> ('w, 'e, 'r) system \<Rightarrow> ('w, 'e, 'r) system option" where
  "join tid s =
     (if tid < length (procs s) \<and> procs s ! tid = Exited then Some s
      else case worker_step tid s of
             None \<Rightarrow> None
           | Some (Inl e) \<Rightarrow> None
           | Some (Inr s') \<Rightarrow> join tid s')"

text \<open>The loop of \<^verbatim>\<open>terminate\<close> over the handles in \<^verbatim>\<open>threads_\<close>.\<close>

fun join_all :: "thread list \<Rightarrow> ('w, 'e, 'r) system \<Rightarrow> ('w, 'e, 'r) system option" where
  "join_all [] s = Some s"
| "join_all (t # ts) s =
     (if joinable t
      then (case join (the t) s of None \<Rightarrow> None | Some s' \<Rightarrow> join_all ts s')
      else join_all ts s)"

definition terminate :: "('w, 'e, 'r) system \<Rightarrow> ('w, 'e, 'r) system option" where
  "terminate s =
     (let s1 = s\<lparr>bTerminate := True\<rparr>
      in case join_all (threads s1) s1 of
           None \<Rightarrow> None
         | Some s2 \<Rightarrow> Some (s2\<lparr>threads := []\<rparr>))"

text \<open>\<^verbatim>\<open>~ThreadPool\<close> calls \<^verbatim>\<open>terminate\<close>.\<close>

definition ThreadPool_dtor :: "('w, 'e, 'r) system \<Rightarrow> ('w, 'e, 'r) system option" where
  "ThreadPool_dtor s = terminate s"

text \<open>
  The waits of \<^verbatim>\<open>waitForAllDone\<close>. \<open>wakes\<close> lists the pool as the caller finds it each time
  the condition variable hands the mutex back, with \<open>True\<close> when that return is the
  timeout. \<^verbatim>\<open>wait(lock, pred)\<close> is \<^verbatim>\<open>while (!pred()) wait(lock);\<close> and
  \<^verbatim>\<open>wait_for(lock, d, pred)\<close> returns \<^verbatim>\<open>pred()\<close> at the timeout and \<^verbatim>\<open>true\<close> once the
  predicate holds. \<open>None\<close>: still waiting when \<open>wakes\<close> is used up.
\<close>

fun cv_wait ::
  "('a ThreadPool_scheme \<Rightarrow> bool) \<Rightarrow> 'a ThreadPool_scheme \<Rightarrow>
   (bool \<times> 'a ThreadPool_scheme) list \<Rightarrow> unit option" where
  "cv_wait pred p wakes =
     (if pred p then Some ()
      else (case wakes of [] \<Rightarrow> None | (timeout, p') # rest \<Rightarrow> cv_wait pred p' rest))"

fun cv_wait_for ::
  "('a ThreadPool_scheme \<Rightarrow> bool) \<Rightarrow> 'a ThreadPool_scheme \<Rightarrow>
   (bool \<times> 'a ThreadPool_scheme) list \<Rightarrow> bool option" where
  "cv_wait_for pred p wakes =
     (if pred p then Some True
      else (case wakes of
              [] \<Rightarrow> None
            | (timeout, p') # rest \<Rightarrow>
                if timeout then Some (pred p') else cv_wait_for pred p' rest))"

definition waitForAllDone ::
  "int \<Rightarrow> 'a ThreadPool_scheme \<Rightarrow> (bool \<times> 'a ThreadPool_scheme) list \<Rightarrow> bool option" where
  "waitForAllDone millsecond p wakes =
     (if tasks p = [] then Some True
      else if millsecond < 0
      then (case cv_wait (\<lambda>q. tasks q = []) p wakes of None \<Rightarrow> None | Some u \<Rightarrow> Some True)
      else cv_wait_for (\<lambda>q. tasks q = []) p wakes)"

section \<open>Runs of the system\<close>

text \<open>
  One step of the whole system: a call of a public operation by the client, or a step
  of a worker thread. \<^verbatim>\<open>getThreadNum\<close>, \<^verbatim>\<open>getJobNum\<close> and \<^verbatim>\<open>waitForAllDone\<close> change nothing.
  A call of \<^verbatim>\<open>terminate\<close> is one step, from the call to the return. A state is reachable
  when steps lead to it from a newly constructed pool.
\<close>

inductive step :: "('w, 'e, 'r) system \<Rightarrow> ('w, 'e, 'r) system \<Rightarrow> bool" where
  step_init: "step s (snd (init num s))"
| step_start: "step s (snd (start avail s))"
| step_exec: "step s (snd (exec timeoutMs f s))"
| step_terminate: "terminate s = Some s' \<Longrightarrow> step s s'"
| step_worker: "worker_step tid s = Some (Inr s') \<Longrightarrow> step s s'"

definition reachable :: "('w, 'e, 'r) system \<Rightarrow> bool" where
  "reachable s = (\<exists>tv w. step\<^sup>*\<^sup>* (new_ThreadPool tv w) s)"

text \<open>
  The steps and the reachable states of the runs in which the operating system grants
  every thread that \<^verbatim>\<open>start\<close> asks for.
\<close>

inductive granted_step :: "('w, 'e, 'r) system \<Rightarrow> ('w, 'e, 'r) system \<Rightarrow> bool" where
  granted_init: "granted_step s (snd (init num s))"
| granted_start: "threadNum s \<le> avail \<Longrightarrow> granted_step s (snd (start avail s))"
| granted_exec: "granted_step s (snd (exec timeoutMs f s))"
| granted_terminate: "terminate s = Some s' \<Longrightarrow> granted_step s s'"
| granted_worker: "worker_step tid s = Some (Inr s') \<Longrightarrow> granted_step s s'"

definition granted_reachable :: "('w, 'e, 'r) system \<Rightarrow> bool" where
  "granted_reachable s = (\<exists>tv w. granted_step\<^sup>*\<^sup>* (new_ThreadPool tv w) s)"

section \<open>Invariants\<close>

text \<open>The thread vector is empty or holds \<^verbatim>\<open>threadNum_\<close> handles.\<close>

definition pool_inv :: "'a ThreadPool_scheme \<Rightarrow> bool" where
  "pool_inv p = (threads p = [] \<or> length (threads p) = threadNum p)"

text \<open>
  Every envelope is run at most once. \<open>holder s i t\<close>: thread \<open>i\<close> has dequeued the
  envelope \<open>t\<close> and not yet passed the \<^verbatim>\<open>try\<close> block. \<open>fresh_task s t\<close>: the packaged task
  of \<open>t\<close> exists and has not been invoked. In a consistent state the envelopes queued
  or held are fresh and have packaged tasks of their own, and every handle in the thread
  vector stands for a thread that exists.
\<close>

definition holder :: "('w, 'e, 'r) system \<Rightarrow> nat \<Rightarrow> TaskFunc \<Rightarrow> bool" where
  "holder s i t = (i < length (procs s) \<and> (procs s ! i = AtIncr t \<or> procs s ! i = AtTry t))"

definition fresh_task :: "('w, 'e, 'r) system \<Rightarrow> TaskFunc \<Rightarrow> bool" where
  "fresh_task s t = (func t < length (heap s) \<and> shared (heap s ! func t) = None)"

definition consistent :: "('w, 'e, 'r) system \<Rightarrow> bool" where
  "consistent s =
     (distinct (map func (tasks s))
      \<and> (\<forall>t \<in> set (tasks s). fresh_task s t)
      \<and> (\<forall>i t. holder s i t \<longrightarrow> fresh_task s t \<and> func t \<notin> func ` set (tasks s))
      \<and> (\<forall>i j t u. holder s i t \<longrightarrow> holder s j u \<longrightarrow> i \<noteq> j \<longrightarrow> func t \<noteq> func u)
      \<and> (\<forall>tid. Some tid \<in> set (threads s) \<longrightarrow> tid < length (procs s)))"

text \<open>
  How many steps a worker is away from leaving \<^verbatim>\<open>run\<close> once the shutdown flag is set.
\<close>

fun steps_to_exit :: "worker_pc \<Rightarrow> nat" where
  "steps_to_exit Exited = 0"
| "steps_to_exit AtWhile = 1"
| "steps_to_exit AtGet = 2"
| "steps_to_exit AtDecr = 2"
| "steps_to_exit (AtTry t) = 3"
| "steps_to_exit (AtIncr t) = 4"

section \<open>The specification's wording of deadlines and of the drain condition\<close>

text \<open>
  These three definitions follow the words of the specification, not the code, and are
  there to be compared with \<open>exec\<close>, \<open>expired\<close> and \<open>waitForAllDone\<close>. \<open>now\<close> is the clock
  read at the moment of the call. The deadline stored by a submission: 0 when the
  timeout is 0, else \<open>now + deadlineMs\<close>. The expiry test of a worker:
  \<^verbatim>\<open>expireAt != 0 && expireAt < now()\<close>. The drain condition: the queue is empty and no task
  is running.
\<close>

definition submit_expireAt :: "int64_t \<Rightarrow> int64_t \<Rightarrow> int64_t" where
  "submit_expireAt now deadlineMs = (if deadlineMs = 0 then 0 else now + deadlineMs)"

definition deadline_passed :: "int64_t \<Rightarrow> TaskFunc \<Rightarrow> bool" where
  "deadline_passed now task = (expireTime task \<noteq> 0 \<and> expireTime task <s now)"

definition drained :: "'a ThreadPool_scheme \<Rightarrow> bool" where
  "drained p = (tasks p = [] \<and> atomic p = 0)"

section \<open>Interleavings of submissions and dequeues\<close>

text \<open>
  A schedule of submissions and dequeue attempts, played against the pool. The result
  is the envelopes submitted, the envelopes dequeued, both in the order of the schedule,
  and the final state. A dequeue attempt that waits or returns false takes nothing.
\<close>

datatype ('w, 'e, 'r) call = Submit int64_t "'w \<Rightarrow> ('e + 'r) \<times> 'w" | Dequeue

fun play ::
  "('w, 'e, 'r) call list \<Rightarrow> ('w, 'e, 'r) system \<Rightarrow>
   TaskFunc list \<times> TaskFunc list \<times> ('w, 'e, 'r) system" where
  "play [] s = ([], [], s)"
| "play (Submit timeoutMs f # cs) s =
     (case exec timeoutMs f s of (fut, s1) \<Rightarrow>
        (case play cs s1 of (sub, deq, s2) \<Rightarrow>
           (\<lparr>func = fut, expireTime = (if timeoutMs = 0 then 0 else TNOWMS s + timeoutMs)\<rparr> # sub,
            deq, s2)))"
| "play (Dequeue # cs) s =
     (case get s of
        Some (True, Some task, s1) \<Rightarrow>
          (case play cs s1 of (sub, deq, s2) \<Rightarrow> (sub, task # deq, s2))
      | _ \<Rightarrow> play cs s)"

text \<open>\<open>n\<close> steps of thread \<open>tid\<close> in a row; \<open>None\<close> when one of them is not a step.\<close>

fun worker_steps :: "nat \<Rightarrow> nat \<Rightarrow> ('w, 'e, 'r) system \<Rightarrow> ('w, 'e, 'r) system option" where
  "worker_steps 0 tid s = Some s"
| "worker_steps (Suc n) tid s =
     (case worker_step tid s of
        None \<Rightarrow> None
      | Some (Inl e) \<Rightarrow> None
      | Some (Inr s') \<Rightarrow> worker_steps n tid s')"

section \<open>Example runs\<close>

text \<open>
  A work item that counts its runs in the world and returns 10, and one that always
  throws. \<open>fresh_pool\<close> is constructed when the clock reads 1 s; \<open>pool1\<close> is
  \<^verbatim>\<open>init(1); start();\<close> on it, with the one thread granted. \<open>short_pool\<close> is
  \<^verbatim>\<open>init(3); start();\<close> on \<open>fresh_pool\<close> when the operating system grants one thread only.
\<close>

definition tick :: "nat \<Rightarrow> (unit + int) \<times> nat" where
  "tick w = (Inr 10, Suc w)"

definition failing :: "nat \<Rightarrow> (unit + int) \<times> nat" where
  "failing w = (Inl (), w)"

definition fresh_pool :: "(nat, unit, int) system" where
  "fresh_pool = new_ThreadPool \<lparr>tv_sec = 1, tv_usec = 0\<rparr> 0"

definition pool1 :: "(nat, unit, int) system" where
  "pool1 = snd (start 1 (snd (init 1 fresh_pool)))"

definition short_pool :: "(nat, unit, int) system" where
  "short_pool = snd (start 1 (snd (init 3 fresh_pool)))"

text \<open>
  \<open>queued_pool\<close>: one task submitted to \<open>pool1\<close> without a timeout, the worker still at
  the loop test. \<open>flagged_pool\<close>: the same after the first critical section of
  \<^verbatim>\<open>terminate\<close>. \<open>timed_pool\<close>: one task submitted to \<open>pool1\<close> with a timeout of 100 ms.
\<close>

definition queued_pool :: "(nat, unit, int) system" where
  "queued_pool = snd (exec0 tick pool1)"

definition flagged_pool :: "(nat, unit, int) system" where
  "flagged_pool = queued_pool\<lparr>bTerminate := True\<rparr>"

definition timed_pool :: "(nat, unit, int) system" where
  "timed_pool = snd (exec 100 tick pool1)"

text \<open>
  \<open>running_pool\<close>: \<open>queued_pool\<close> after the worker has dequeued the task and counted it
  in \<^verbatim>\<open>atomic_\<close>; the worker stands at the \<^verbatim>\<open>try\<close> block, the work item has not run yet.
\<close>

definition running_pool :: "(nat, unit, int) system" where
  "running_pool = setpc 0 (AtTry \<lparr>func = 0, expireTime = 0\<rparr>) (queued_pool\<lparr>tasks := [], atomic := 1\<rparr>)"

text \<open>
  A schedule of three submissions and two dequeues, and \<open>pool1\<close> after it: three packaged
  tasks in the heap, the third envelope still queued.
\<close>

definition schedule :: "(nat, unit, int) call list" where
  "schedule = [Submit 0 tick, Submit 5 failing, Dequeue, Submit 0 tick, Dequeue]"

definition played_pool :: "(nat, unit, int) system" where
  "played_pool =
     pool1\<lparr>tasks := [\<lparr>func = 2, expireTime = 0\<rparr>],
           heap := [\<lparr>stored = tick, shared = None\<rparr>, \<lparr>stored = failing, shared = None\<rparr>,
                    \<lparr>stored = tick, shared = None\<rparr>]\<rparr>"


definition stopped_pool :: "(nat, unit, int) system" where
  "stopped_pool = queued_pool\<lparr>bTerminate := True, procs := [Exited], threads := []\<rparr>"

section \<open>Properties\<close>


subsection \<open>Single operations\<close>

lemma get_simps:
  "bTerminate p \<Longrightarrow> get p = Some (False, None, p)"
  "\<not> bTerminate p \<Longrightarrow> tasks p = [] \<Longrightarrow> get p = None"
  "\<not> bTerminate p \<Longrightarrow> tasks p = t # ts \<Longrightarrow> get p = Some (True, Some t, p\<lparr>tasks := ts\<rparr>)"
  by (simp_all add: get_def)

lemma get_ok_task: "get p = Some (ok, task, p') \<Longrightarrow> ok = (task \<noteq> None)"
  by (auto simp: get_def split: if_splits list.splits)

lemma setpc_fields [simp]:
  "tasks (setpc tid pc s) = tasks s"
  "threads (setpc tid pc s) = threads s"
  "worker (setpc tid pc s) = worker s"
  "threadNum (setpc tid pc s) = threadNum s"
  "bTerminate (setpc tid pc s) = bTerminate s"
  "atomic (setpc tid pc s) = atomic s"
  "TNOWMS (setpc tid pc s) = TNOWMS s"
  "heap (setpc tid pc s) = heap s"
  "world (setpc tid pc s) = world s"
  "procs (setpc tid pc s) = (procs s)[tid := pc]"
  by (simp_all add: setpc_def)

lemma get_fields:
  assumes "get p = Some (ok, task, p')"
  shows "threads p' = threads p" "threadNum p' = threadNum p" "bTerminate p' = bTerminate p"
    "atomic p' = atomic p" "TNOWMS p' = TNOWMS p" "worker p' = worker p"
  using assms by (auto simp: get_def split: if_splits list.splits)

lemma get_sys_fields:
  fixes s :: "('w, 'e, 'r) system"
  assumes "get s = Some (ok, task, s')"
  shows "heap s' = heap s" "world s' = world s" "procs s' = procs s"
  using assms by (auto simp: get_def split: if_splits list.splits)

lemma worker_step_pool:
  assumes "worker_step tid s = Some (Inr s')"
  shows "threads s' = threads s" "threadNum s' = threadNum s" "bTerminate s' = bTerminate s"
    "TNOWMS s' = TNOWMS s" "length (procs s') = length (procs s)" "length (heap s') = length (heap s)"
    "tid < length (procs s)"
  using assms
  by (auto simp: worker_step_def isTerminate_def get_fields get_sys_fields
      split: if_splits worker_pc.splits option.splits sum.splits prod.splits)

lemma worker_step_tasks_flag:
  assumes "worker_step tid s = Some (Inr s')" "bTerminate s"
  shows "tasks s' = tasks s"
  using assms
  by (auto simp: worker_step_def isTerminate_def get_def
      split: if_splits worker_pc.splits option.splits sum.splits prod.splits)

subsection \<open>Joining and terminating\<close>

lemma join_Exited: "tid < length (procs s) \<Longrightarrow> procs s ! tid = Exited \<Longrightarrow> join tid s = Some s"
  by (subst join.simps) simp

lemma join_step:
  "worker_step tid s = Some (Inr s') \<Longrightarrow> procs s ! tid \<noteq> Exited \<Longrightarrow> join tid s = join tid s'"
  by (subst join.simps) simp

text \<open>A property kept by every step of a worker is kept by join.\<close>

lemma join_induct:
  assumes "join tid s = Some s'"
    and "P s"
    and "\<And>a b. P a \<Longrightarrow> worker_step tid a = Some (Inr b) \<Longrightarrow> P b"
  shows "P s'"
proof -
  have "tid = tid \<longrightarrow> P s \<longrightarrow> P s'"
  proof (rule join.raw_induct [where P = "\<lambda>t a y. t = tid \<longrightarrow> P a \<longrightarrow> P y", OF _ assms(1)])
    fix jn t a y
    assume IH: "\<And>t a y. jn t a = Some y \<Longrightarrow> t = tid \<longrightarrow> P a \<longrightarrow> P y"
      and body: "(if t < length (procs a) \<and> procs a ! t = Exited then Some a
                  else case worker_step t a of None \<Rightarrow> None | Some (Inl e) \<Rightarrow> None
                       | Some (Inr s') \<Rightarrow> jn t s') = Some y"
    show "t = tid \<longrightarrow> P a \<longrightarrow> P y"
    proof (intro impI)
      assume t: "t = tid" and Pa: "P a"
      show "P y"
      proof (cases "t < length (procs a) \<and> procs a ! t = Exited")
        case True
        with body Pa show ?thesis by simp
      next
        case False
        with body obtain b where b: "worker_step t a = Some (Inr b)" and j: "jn t b = Some y"
          by (auto split: option.splits sum.splits)
        from b t have "P b" using assms(3) Pa by blast
        with IH [OF j] t show ?thesis by simp
      qed
    qed
  qed
  with assms(2) show ?thesis by simp
qed

lemma join_all_induct:
  assumes "join_all ts s = Some s'"
    and "P s"
    and "\<And>tid a b. P a \<Longrightarrow> worker_step tid a = Some (Inr b) \<Longrightarrow> P b"
  shows "P s'"
  using assms(1,2)
proof (induction ts arbitrary: s)
  case Nil
  then show ?case by simp
next
  case (Cons t ts)
  show ?case
  proof (cases "joinable t")
    case True
    with Cons.prems(1) obtain m where m: "join (the t) s = Some m" and r: "join_all ts m = Some s'"
      by (auto split: option.splits)
    have "P m" by (rule join_induct [where P = P, OF m Cons.prems(2)]) (rule assms(3))
    with Cons.IH r show ?thesis by blast
  next
    case False
    with Cons show ?thesis by simp
  qed
qed

lemma join_all_flag:
  assumes "join_all ts s = Some s'" "bTerminate s"
  shows "bTerminate s' \<and> tasks s' = tasks s \<and> threads s' = threads s \<and> threadNum s' = threadNum s
    \<and> TNOWMS s' = TNOWMS s"
proof -
  let ?P = "\<lambda>a. bTerminate a \<and> tasks a = tasks s \<and> threads a = threads s \<and> threadNum a = threadNum s
    \<and> TNOWMS a = TNOWMS s"
  have "?P s'"
  proof (rule join_all_induct [where P = ?P, OF assms(1)])
    show "?P s" using assms(2) by simp
  next
    fix tid a b
    assume "?P a" and "worker_step tid a = Some (Inr b)"
    then show "?P b" by (simp add: worker_step_pool worker_step_tasks_flag)
  qed
  then show ?thesis .
qed

lemma terminate_Some:
  assumes "terminate s = Some s'"
  shows "bTerminate s'" "threads s' = []" "tasks s' = tasks s" "threadNum s' = threadNum s"
    "TNOWMS s' = TNOWMS s"
proof -
  from assms obtain m where m: "join_all (threads s) (s\<lparr>bTerminate := True\<rparr>) = Some m"
    and s': "s' = m\<lparr>threads := []\<rparr>"
    by (auto simp: terminate_def Let_def split: option.splits)
  from join_all_flag [OF m] s'
  show "bTerminate s'" "threads s' = []" "tasks s' = tasks s" "threadNum s' = threadNum s"
    "TNOWMS s' = TNOWMS s"
    by simp_all
qed

lemma terminate_no_threads: "threads s = [] \<Longrightarrow> terminate s = Some (s\<lparr>bTerminate := True\<rparr>)"
  by (simp add: terminate_def)

lemma terminate_twice:
  assumes "terminate s = Some s'"
  shows "terminate s' = Some s'"
proof -
  have "s'\<lparr>bTerminate := True\<rparr> = s'"
    using terminate_Some(1) [OF assms] by simp
  with terminate_no_threads [OF terminate_Some(2) [OF assms]] show ?thesis by simp
qed

subsection \<open>Starting and submitting\<close>

lemma join_unfold:
  "tid < length (procs s) \<Longrightarrow> procs s ! tid \<noteq> Exited \<Longrightarrow>
   join tid s = (case worker_step tid s of None \<Rightarrow> None | Some (Inl e) \<Rightarrow> None
                 | Some (Inr s') \<Rightarrow> join tid s')"
  by (subst join.simps) simp

lemma spawn_fields [simp]:
  "tasks (spawn s) = tasks s" "threadNum (spawn s) = threadNum s"
  "bTerminate (spawn s) = bTerminate s" "TNOWMS (spawn s) = TNOWMS s"
  "atomic (spawn s) = atomic s" "heap (spawn s) = heap s" "world (spawn s) = world s"
  "threads (spawn s) = threads s @ [Some (length (procs s))]"
  "procs (spawn s) = procs s @ [AtWhile]"
  by (simp_all add: spawn_def Let_def)

lemma spawn_loop_fields [simp]:
  "tasks (snd (spawn_loop n a s)) = tasks s" "threadNum (snd (spawn_loop n a s)) = threadNum s"
  "bTerminate (snd (spawn_loop n a s)) = bTerminate s" "TNOWMS (snd (spawn_loop n a s)) = TNOWMS s"
  "atomic (snd (spawn_loop n a s)) = atomic s" "heap (snd (spawn_loop n a s)) = heap s"
  "world (snd (spawn_loop n a s)) = world s"
  by (induction n arbitrary: a s; simp)+

lemma spawn_loop_fst: "fst (spawn_loop n a s) = (n \<le> a)"
  by (induction n arbitrary: a s) auto

lemma upt_add_Suc: "[l ..< l + Suc m] = l # [Suc l ..< Suc l + m]"
  by (simp add: upt_conv_Cons)

lemma spawn_loop_threads:
  "threads (snd (spawn_loop n a s)) =
     threads s @ map Some [length (procs s) ..< length (procs s) + min n a]"
proof (induction n arbitrary: a s)
  case 0
  then show ?case by simp
next
  case (Suc n)
  show ?case
  proof (cases "a = 0")
    case True
    then show ?thesis by simp
  next
    case False
    then have m: "min (Suc n) a = Suc (min n (a - 1))" by simp
    from False have "threads (snd (spawn_loop (Suc n) a s)) = threads (snd (spawn_loop n (a - 1) (spawn s)))"
      by simp
    also have "\<dots> = (threads s @ [Some (length (procs s))]) @
        map Some [Suc (length (procs s)) ..< Suc (length (procs s)) + min n (a - 1)]"
      using Suc.IH [of "a - 1" "spawn s"] by simp
    also have "\<dots> = threads s @
        map Some (length (procs s) # [Suc (length (procs s)) ..< Suc (length (procs s)) + min n (a - 1)])"
      by simp
    also have "\<dots> = threads s @ map Some [length (procs s) ..< length (procs s) + Suc (min n (a - 1))]"
      by (simp only: upt_add_Suc)
    finally show ?thesis by (simp only: m)
  qed
qed

lemma spawn_loop_procs:
  "procs (snd (spawn_loop n a s)) = procs s @ replicate (min n a) AtWhile"
proof (induction n arbitrary: a s)
  case 0
  then show ?case by simp
next
  case (Suc n)
  show ?case
  proof (cases "a = 0")
    case True
    then show ?thesis by simp
  next
    case False
    then have m: "min (Suc n) a = Suc (min n (a - 1))" by simp
    with False Suc.IH [of "a - 1" "spawn s"] show ?thesis
      by (simp add: m replicate_app_Cons_same)
  qed
qed

lemma start_snd:
  "snd (start a s) = (if threads s \<noteq> [] then s else snd (spawn_loop (threadNum s) a s))"
  by (simp add: start_def split: prod.splits)

lemma start_fst:
  "fst (start a s) =
     (if threads s \<noteq> [] then Inr False
      else if threadNum s \<le> a then Inr True else Inl system_error)"
  using spawn_loop_fst [of "threadNum s" a s]
  by (auto simp: start_def split: prod.splits)

lemma start_fields [simp]:
  "tasks (snd (start a s)) = tasks s" "threadNum (snd (start a s)) = threadNum s"
  "bTerminate (snd (start a s)) = bTerminate s" "TNOWMS (snd (start a s)) = TNOWMS s"
  "atomic (snd (start a s)) = atomic s" "heap (snd (start a s)) = heap s"
  "world (snd (start a s)) = world s"
  by (simp_all add: start_snd)

lemma start_threads:
  "threads s = [] \<Longrightarrow>
   threads (snd (start a s)) = map Some [length (procs s) ..< length (procs s) + min (threadNum s) a]"
  by (simp add: start_snd spawn_loop_threads)

lemma exec_fields [simp]:
  "tasks (snd (exec t f s)) =
     tasks s @ [\<lparr>func = length (heap s), expireTime = (if t = 0 then 0 else TNOWMS s + t)\<rparr>]"
  "heap (snd (exec t f s)) = heap s @ [\<lparr>stored = f, shared = None\<rparr>]"
  "fst (exec t f s) = length (heap s)"
  "threads (snd (exec t f s)) = threads s" "threadNum (snd (exec t f s)) = threadNum s"
  "bTerminate (snd (exec t f s)) = bTerminate s" "TNOWMS (snd (exec t f s)) = TNOWMS s"
  "atomic (snd (exec t f s)) = atomic s" "world (snd (exec t f s)) = world s"
  "procs (snd (exec t f s)) = procs s"
  by (simp_all add: exec_def Let_def)

subsection \<open>The thread vector\<close>

text \<open>The thread vector never holds more handles than \<^verbatim>\<open>threadNum_\<close> says.\<close>

lemma step_threads_le:
  assumes "step s s'" "length (threads s) \<le> threadNum s"
  shows "length (threads s') \<le> threadNum s'"
  using assms(1)
proof (cases rule: step.cases)
  case (step_init num)
  with assms(2) show ?thesis by (auto simp: init_def)
next
  case (step_start avail)
  show ?thesis
  proof (cases "threads s = []")
    case True
    with step_start show ?thesis by (simp add: start_threads)
  next
    case False
    with step_start assms(2) show ?thesis by (simp add: start_snd)
  qed
next
  case (step_exec timeoutMs f)
  with assms(2) show ?thesis by simp
next
  case step_terminate
  from terminate_Some(2) [OF step_terminate] show ?thesis by simp
next
  case (step_worker tid)
  with assms(2) show ?thesis by (simp add: worker_step_pool)
qed

lemma reachable_threads_le:
  assumes "reachable s"
  shows "length (threads s) \<le> threadNum s"
proof -
  from assms obtain tv and w :: 'a where "step\<^sup>*\<^sup>* (new_ThreadPool tv w) s"
    unfolding reachable_def by blast
  then show ?thesis
  proof (induction rule: rtranclp_induct)
    case base
    show ?case by (simp add: new_ThreadPool_def)
  next
    case (step y z)
    from step.hyps(2) step.IH show ?case by (rule step_threads_le)
  qed
qed

text \<open>While every thread is granted, the thread vector is empty or full.\<close>

lemma granted_step_pool_inv:
  assumes "granted_step s s'" "pool_inv s"
  shows "pool_inv s'"
  using assms(1)
proof (cases rule: granted_step.cases)
  case (granted_init num)
  with assms(2) show ?thesis by (auto simp: init_def pool_inv_def)
next
  case (granted_start avail)
  show ?thesis
  proof (cases "threads s = []")
    case True
    with granted_start show ?thesis by (simp add: pool_inv_def start_threads)
  next
    case False
    with granted_start assms(2) show ?thesis by (simp add: start_snd)
  qed
next
  case (granted_exec timeoutMs f)
  with assms(2) show ?thesis by (simp add: pool_inv_def)
next
  case granted_terminate
  from terminate_Some(2) [OF granted_terminate] show ?thesis by (simp add: pool_inv_def)
next
  case (granted_worker tid)
  with assms(2) show ?thesis by (simp add: pool_inv_def worker_step_pool)
qed

lemma granted_reachable_pool_inv:
  assumes "granted_reachable s"
  shows "pool_inv s"
proof -
  from assms obtain tv and w :: 'a where "granted_step\<^sup>*\<^sup>* (new_ThreadPool tv w) s"
    unfolding granted_reachable_def by blast
  then show ?thesis
  proof (induction rule: rtranclp_induct)
    case base
    show ?case by (simp add: pool_inv_def new_ThreadPool_def)
  next
    case (step y z)
    from step.hyps(2) step.IH show ?case by (rule granted_step_pool_inv)
  qed
qed

lemma granted_reachable_new: "granted_reachable (new_ThreadPool tv w)"
  unfolding granted_reachable_def by blast

lemma granted_reachable_step:
  "granted_reachable s \<Longrightarrow> granted_step s s' \<Longrightarrow> granted_reachable s'"
  unfolding granted_reachable_def by (blast intro: rtranclp.rtrancl_into_rtrancl)

lemma reachable_new: "reachable (new_ThreadPool tv w)"
  unfolding reachable_def by blast

lemma reachable_step: "reachable s \<Longrightarrow> step s s' \<Longrightarrow> reachable s'"
  unfolding reachable_def by (blast intro: rtranclp.rtrancl_into_rtrancl)

lemma reachable_pool1: "reachable pool1"
  unfolding pool1_def fresh_pool_def
  by (intro reachable_step [OF _ step_start] reachable_step [OF _ step_init] reachable_new)

lemmas run_defs = queued_pool_def fresh_pool_def pool1_def tick_def failing_def
  new_ThreadPool_def getNowMs_def init_def start_def spawn_def exec_def exec0_def worker_step_def
  get_def setpc_def isTerminate_def expired_def invoke_def Let_def getThreadNum_def getJobNum_def
  future_get_def

lemma granted_reachable_pool1: "granted_reachable pool1"
proof -
  have "granted_reachable (snd (init 1 fresh_pool))"
    unfolding fresh_pool_def
    by (intro granted_reachable_step [OF _ granted_init] granted_reachable_new)
  moreover have "granted_step (snd (init 1 fresh_pool)) pool1"
    unfolding pool1_def by (rule granted_start) (simp add: init_def fresh_pool_def new_ThreadPool_def)
  ultimately show ?thesis by (rule granted_reachable_step)
qed

lemma reachable_short_pool: "reachable short_pool"
  unfolding short_pool_def fresh_pool_def
  by (intro reachable_step [OF _ step_start] reachable_step [OF _ step_init] reachable_new)

text \<open>
  Claim C7 as stated fails: \<^verbatim>\<open>init(3)\<close> and then \<^verbatim>\<open>start()\<close>, when the operating system grants
  one thread only, ends in \<^verbatim>\<open>std::system_error\<close> and leaves one handle in the vector,
  neither none nor three.
\<close>

theorem start_failure_leaves_partial_vector:
  "reachable short_pool
   \<and> fst (start 1 (snd (init 3 fresh_pool))) = Inl system_error
   \<and> getThreadNum short_pool = 1 \<and> threadNum short_pool = 3"
  using reachable_short_pool
  by (simp add: short_pool_def start_fst start_threads getThreadNum_def init_def fresh_pool_def
      new_ThreadPool_def)

text \<open>
  Claim C7, amended. In every state the system reaches, the thread vector holds no more
  handles than the configured number, and in every state of a run in which every
  thread is granted it is empty or holds exactly the configured number. On a pool
  without workers, \<^verbatim>\<open>init(k)\<close> returns true, and \<^verbatim>\<open>start()\<close> after it returns true and leaves
  exactly \<open>k\<close> workers when \<open>k\<close> threads are granted; when fewer are granted, \<^verbatim>\<open>start()\<close>
  throws and leaves as many workers as were granted. On a pool with workers, \<^verbatim>\<open>init\<close> and
  \<^verbatim>\<open>start\<close> return false and change nothing.
\<close>

theorem thread_vector_empty_or_full_when_granted:
  "(reachable s \<longrightarrow> getThreadNum s \<le> threadNum s)
   \<and> (granted_reachable s \<longrightarrow> getThreadNum s = 0 \<or> getThreadNum s = threadNum s)
   \<and> (threads s = [] \<longrightarrow> k \<le> avail \<longrightarrow>
        fst (init k s) \<and> fst (start avail (snd (init k s))) = Inr True
        \<and> getThreadNum (snd (start avail (snd (init k s)))) = k)
   \<and> (threads s = [] \<longrightarrow> avail < k \<longrightarrow>
        fst (init k s) \<and> fst (start avail (snd (init k s))) = Inl system_error
        \<and> getThreadNum (snd (start avail (snd (init k s)))) = avail)
   \<and> (threads s \<noteq> [] \<longrightarrow> init k s = (False, s) \<and> start avail s = (Inr False, s))"
proof (intro conjI impI)
  assume "reachable s"
  then show "getThreadNum s \<le> threadNum s"
    unfolding getThreadNum_def by (rule reachable_threads_le)
next
  assume "granted_reachable s"
  then have "pool_inv s" by (rule granted_reachable_pool_inv)
  then show "getThreadNum s = 0 \<or> getThreadNum s = threadNum s"
    by (simp add: pool_inv_def getThreadNum_def)
next
  assume e: "threads s = []" and g: "k \<le> avail"
  from e show "fst (init k s)" by (simp add: init_def)
  from e g show "fst (start avail (snd (init k s))) = Inr True"
    by (simp add: start_fst init_def)
  from e g show "getThreadNum (snd (start avail (snd (init k s)))) = k"
    by (simp add: getThreadNum_def start_threads init_def)
next
  assume e: "threads s = []" and g: "avail < k"
  from e show "fst (init k s)" by (simp add: init_def)
  from e g show "fst (start avail (snd (init k s))) = Inl system_error"
    by (simp add: start_fst init_def)
  from e g show "getThreadNum (snd (start avail (snd (init k s)))) = avail"
    by (simp add: getThreadNum_def start_threads init_def)
next
  assume n: "threads s \<noteq> []"
  then show "init k s = (False, s)" by (simp add: init_def)
  from n show "start avail s = (Inr False, s)" by (simp add: start_def)
qed

theorem thread_vector_empty_or_full_when_granted_witness:
  "reachable pool1 \<and> granted_reachable pool1 \<and> getThreadNum pool1 = threadNum pool1
   \<and> threads fresh_pool = []
   \<and> fst (start 3 (snd (init 3 fresh_pool))) = Inr True
   \<and> getThreadNum (snd (start 3 (snd (init 3 fresh_pool)))) = 3
   \<and> fst (start 1 (snd (init 3 fresh_pool))) = Inl system_error
   \<and> getThreadNum (snd (start 1 (snd (init 3 fresh_pool)))) = 1
   \<and> threads pool1 \<noteq> [] \<and> init 5 pool1 = (False, pool1) \<and> start 2 pool1 = (Inr False, pool1)"
proof -
  have h: "threads fresh_pool = []" "threads pool1 \<noteq> []" "getThreadNum pool1 = 1"
    "threadNum pool1 = 1"
    by (simp_all add: run_defs)
  from thread_vector_empty_or_full_when_granted [of pool1 5 2]
    thread_vector_empty_or_full_when_granted [of fresh_pool 3 3]
    thread_vector_empty_or_full_when_granted [of fresh_pool 3 1]
    reachable_pool1 granted_reachable_pool1 h
  show ?thesis by simp
qed

subsection \<open>The queue at shutdown\<close>

lemma terminate_queued_pool:
  "terminate queued_pool = Some (queued_pool\<lparr>bTerminate := True, procs := [Exited], threads := []\<rparr>)"
  by (simp add: terminate_def joinable_def join_unfold join_Exited run_defs)

text \<open>
  Claim C5 as stated fails: \<^verbatim>\<open>terminate\<close> on a pool with one worker and one pending task
  returns with that task still in the queue.
\<close>

theorem terminate_keeps_pending_counterexample:
  "map_option getJobNum (terminate queued_pool) = Some 1"
  by (simp add: terminate_queued_pool) (simp add: run_defs)

text \<open>
  Claim C5, amended. \<^verbatim>\<open>terminate\<close> does not touch the task queue: when it returns, the queue
  is the one it found, and \<^verbatim>\<open>getJobNum()\<close> is unchanged.
\<close>

theorem terminate_keeps_queue:
  "terminate s = Some s' \<Longrightarrow> tasks s' = tasks s \<and> getJobNum s' = getJobNum s"
  by (simp add: terminate_Some getJobNum_def)

theorem terminate_keeps_queue_witness:
  "terminate queued_pool = Some (queued_pool\<lparr>bTerminate := True, procs := [Exited], threads := []\<rparr>)
   \<and> getJobNum (queued_pool\<lparr>bTerminate := True, procs := [Exited], threads := []\<rparr>)
       = getJobNum queued_pool"
  using terminate_keeps_queue [OF terminate_queued_pool] terminate_queued_pool by simp

text \<open>
  Claim C4 as stated fails: with the shutdown flag set and a task in the queue, \<^verbatim>\<open>get\<close>
  returns false and the worker leaves its loop.
\<close>

theorem worker_stops_with_pending_task:
  "tasks flagged_pool \<noteq> []
   \<and> get flagged_pool = Some (False, None, flagged_pool)
   \<and> worker_step 0 flagged_pool = Some (Inr (setpc 0 Exited flagged_pool))"
  by (simp add: run_defs flagged_pool_def)

text \<open>
  Claim C4, amended. \<^verbatim>\<open>get\<close> returns false exactly when the shutdown flag is set, whatever
  the queue holds, and then hands back no task and leaves the pool, the queue with it,
  as it is. Without the flag, \<^verbatim>\<open>get\<close> on a non-empty queue returns the front task
  and removes it, and on an empty queue it waits. A step of a worker leaves the loop
  exactly when the worker is at the loop test and the flag is set; after \<^verbatim>\<open>--atomic_\<close> the
  worker is back at the loop test.
\<close>

theorem worker_stops_iff_terminating:
  "((\<exists>task p'. get p = Some (False, task, p')) = bTerminate p)
   \<and> (bTerminate p \<longrightarrow> get p = Some (False, None, p))
   \<and> (\<not> bTerminate p \<longrightarrow> tasks p = t # ts \<longrightarrow> get p = Some (True, Some t, p\<lparr>tasks := ts\<rparr>))
   \<and> (\<not> bTerminate p \<longrightarrow> tasks p = [] \<longrightarrow> get p = None)
   \<and> (worker_step tid s = Some (Inr s') \<longrightarrow>
        (procs s' ! tid = Exited) = (procs s ! tid = AtWhile \<and> bTerminate s))
   \<and> (tid < length (procs s) \<longrightarrow> procs s ! tid = AtDecr \<longrightarrow>
        (\<exists>s1. worker_step tid s = Some (Inr s1) \<and> procs s1 ! tid = AtWhile))"
proof -
  have "(\<exists>task p'. get p = Some (False, task, p')) = bTerminate p"
    by (auto simp: get_def split: list.splits)
  moreover have "worker_step tid s = Some (Inr s') \<longrightarrow>
        (procs s' ! tid = Exited) = (procs s ! tid = AtWhile \<and> bTerminate s)"
    by (auto simp: worker_step_def isTerminate_def get_sys_fields
        split: if_splits worker_pc.splits option.splits sum.splits prod.splits)
  moreover have "tid < length (procs s) \<longrightarrow> procs s ! tid = AtDecr \<longrightarrow>
        (\<exists>s1. worker_step tid s = Some (Inr s1) \<and> procs s1 ! tid = AtWhile)"
    by (simp add: worker_step_def)
  ultimately show ?thesis by (simp add: get_simps)
qed

theorem worker_stops_iff_terminating_witness:
  "\<not> bTerminate queued_pool \<and> tasks queued_pool = [\<lparr>func = 0, expireTime = 0\<rparr>]
   \<and> get queued_pool = Some (True, Some \<lparr>func = 0, expireTime = 0\<rparr>, queued_pool\<lparr>tasks := []\<rparr>)
   \<and> \<not> bTerminate pool1 \<and> tasks pool1 = [] \<and> get pool1 = None
   \<and> worker_step 0 flagged_pool = Some (Inr (setpc 0 Exited flagged_pool))
   \<and> procs (setpc 0 Exited flagged_pool) ! 0 = Exited \<and> bTerminate flagged_pool
   \<and> get flagged_pool = Some (False, None, flagged_pool)
   \<and> getJobNum flagged_pool = 1
   \<and> 0 < length (procs (setpc 0 AtDecr running_pool))
   \<and> procs (setpc 0 AtDecr running_pool) ! 0 = AtDecr
   \<and> (\<exists>s1. worker_step 0 (setpc 0 AtDecr running_pool) = Some (Inr s1) \<and> procs s1 ! 0 = AtWhile)"
  using worker_stops_iff_terminating
      [of queued_pool "\<lparr>func = 0, expireTime = 0\<rparr>" "[]" 0 flagged_pool "setpc 0 Exited flagged_pool"]
    worker_stops_iff_terminating
      [of pool1 "\<lparr>func = 0, expireTime = 0\<rparr>" "[]" 0 flagged_pool "setpc 0 Exited flagged_pool"]
    worker_stops_iff_terminating
      [of pool1 "\<lparr>func = 0, expireTime = 0\<rparr>" "[]" 0 "setpc 0 AtDecr running_pool"]
    worker_stops_iff_terminating
      [of flagged_pool "\<lparr>func = 0, expireTime = 0\<rparr>" "[]" 0 flagged_pool "setpc 0 Exited flagged_pool"]
  by (simp add: run_defs flagged_pool_def running_pool_def)

subsection \<open>The order of the queue\<close>

lemma play_fifo: "play cs s = (sub, deq, s') \<Longrightarrow> deq @ tasks s' = tasks s @ sub"
proof (induction cs s arbitrary: sub deq s' rule: play.induct)
  case (1 s)
  then show ?case by simp
next
  case (2 timeoutMs f cs s)
  obtain fut s1 where e: "exec timeoutMs f s = (fut, s1)" by (cases "exec timeoutMs f s")
  obtain sub1 deq1 s2 where p: "play cs s1 = (sub1, deq1, s2)" by (cases "play cs s1")
  from e exec_fields(3) [of timeoutMs f s] have fut: "fut = length (heap s)" by simp
  from e exec_fields(1) [of timeoutMs f s]
  have s1: "tasks s1 = tasks s @
      [\<lparr>func = fut, expireTime = (if timeoutMs = 0 then 0 else TNOWMS s + timeoutMs)\<rparr>]"
    by (simp add: fut)
  from "2.IH" [OF e [symmetric] p] have "deq1 @ tasks s2 = tasks s1 @ sub1" .
  moreover from "2.prems" e p
  have "sub = \<lparr>func = fut, expireTime = (if timeoutMs = 0 then 0 else TNOWMS s + timeoutMs)\<rparr> # sub1"
    "deq = deq1" "s' = s2"
    by simp_all
  ultimately show ?case by (simp add: s1)
next
  case (3 cs s)
  show ?case
  proof (cases "bTerminate s \<or> tasks s = []")
    case True
    then consider (wait) "get s = None" | (stop) "get s = Some (False, None, s)"
      using get_simps(1,2) [of s] by (cases "bTerminate s") auto
    then show ?thesis
    proof cases
      case wait
      with "3.prems" have "play cs s = (sub, deq, s')" by simp
      with "3.IH"(1) [OF wait] show ?thesis .
    next
      case stop
      with "3.prems" have "play cs s = (sub, deq, s')" by simp
      with "3.IH"(4) [OF stop refl refl] show ?thesis .
    qed
  next
    case False
    then obtain t ts where ts: "tasks s = t # ts" by (cases "tasks s") auto
    with False have g: "get s = Some (True, Some t, s\<lparr>tasks := ts\<rparr>)" by (simp add: get_simps)
    obtain sub1 deq1 s2 where p: "play cs (s\<lparr>tasks := ts\<rparr>) = (sub1, deq1, s2)"
      by (cases "play cs (s\<lparr>tasks := ts\<rparr>)")
    from "3.IH"(3) [OF g refl refl refl refl p] have "deq1 @ tasks s2 = ts @ sub1" by simp
    with "3.prems" g p ts show ?thesis by auto
  qed
qed

text \<open>
  Claim C8. \<^verbatim>\<open>exec\<close> puts the new envelope at the back of the queue, a successful \<^verbatim>\<open>get\<close>
  takes the front one, and in every schedule of submissions and dequeues the envelopes
  dequeued, followed by those still queued, are the envelopes first queued followed by
  those submitted, in order.
\<close>

theorem dequeue_order_is_submission_order:
  "tasks (snd (exec timeoutMs f s)) =
     tasks s @ [\<lparr>func = fst (exec timeoutMs f s),
                 expireTime = (if timeoutMs = 0 then 0 else TNOWMS s + timeoutMs)\<rparr>]
   \<and> (get s = Some (True, Some task, s1) \<longrightarrow> tasks s = task # tasks s1)
   \<and> (play cs s = (sub, deq, s') \<longrightarrow> deq @ tasks s' = tasks s @ sub)"
proof -
  have "get s = Some (True, Some task, s1) \<longrightarrow> tasks s = task # tasks s1"
    by (auto simp: get_def split: if_splits list.splits)
  then show ?thesis by (simp add: play_fifo)
qed

theorem dequeue_order_is_submission_order_witness:
  "get queued_pool = Some (True, Some \<lparr>func = 0, expireTime = 0\<rparr>, queued_pool\<lparr>tasks := []\<rparr>)
   \<and> tasks queued_pool = \<lparr>func = 0, expireTime = 0\<rparr> # tasks (queued_pool\<lparr>tasks := []\<rparr>)
   \<and> play schedule pool1 =
       ([\<lparr>func = 0, expireTime = 0\<rparr>, \<lparr>func = 1, expireTime = 1005\<rparr>, \<lparr>func = 2, expireTime = 0\<rparr>],
        [\<lparr>func = 0, expireTime = 0\<rparr>, \<lparr>func = 1, expireTime = 1005\<rparr>],
        played_pool)
   \<and> [\<lparr>func = 0, expireTime = 0\<rparr>, \<lparr>func = 1, expireTime = 1005\<rparr>] @ tasks played_pool =
       tasks pool1 @
       [\<lparr>func = 0, expireTime = 0\<rparr>, \<lparr>func = 1, expireTime = 1005\<rparr>, \<lparr>func = 2, expireTime = 0\<rparr>]"
proof -
  have p: "play schedule pool1 =
       ([\<lparr>func = 0, expireTime = 0\<rparr>, \<lparr>func = 1, expireTime = 1005\<rparr>, \<lparr>func = 2, expireTime = 0\<rparr>],
        [\<lparr>func = 0, expireTime = 0\<rparr>, \<lparr>func = 1, expireTime = 1005\<rparr>],
        played_pool)"
    by (simp add: run_defs schedule_def played_pool_def)
  have g: "get queued_pool =
      Some (True, Some \<lparr>func = 0, expireTime = 0\<rparr>, queued_pool\<lparr>tasks := []\<rparr>)"
    by (simp add: run_defs)
  from dequeue_order_is_submission_order
      [of 0 tick queued_pool "\<lparr>func = 0, expireTime = 0\<rparr>" "queued_pool\<lparr>tasks := []\<rparr>"] g
  have 1: "tasks queued_pool = \<lparr>func = 0, expireTime = 0\<rparr> # tasks (queued_pool\<lparr>tasks := []\<rparr>)"
    by blast
  from dequeue_order_is_submission_order
      [of 0 tick pool1 "\<lparr>func = 0, expireTime = 0\<rparr>" pool1 schedule
        "[\<lparr>func = 0, expireTime = 0\<rparr>, \<lparr>func = 1, expireTime = 1005\<rparr>, \<lparr>func = 2, expireTime = 0\<rparr>]"
        "[\<lparr>func = 0, expireTime = 0\<rparr>, \<lparr>func = 1, expireTime = 1005\<rparr>]" played_pool] p
  have 2: "[\<lparr>func = 0, expireTime = 0\<rparr>, \<lparr>func = 1, expireTime = 1005\<rparr>] @ tasks played_pool =
       tasks pool1 @
       [\<lparr>func = 0, expireTime = 0\<rparr>, \<lparr>func = 1, expireTime = 1005\<rparr>, \<lparr>func = 2, expireTime = 0\<rparr>]"
    by blast
  from g 1 p 2 show ?thesis by blast
qed

subsection \<open>Deadlines and draining\<close>

lemma worker_steps_numeral:
  "worker_steps (numeral n) tid s =
     (case worker_step tid s of None \<Rightarrow> None | Some (Inl e) \<Rightarrow> None
      | Some (Inr s') \<Rightarrow> worker_steps (pred_numeral n) tid s')"
  by (simp add: numeral_eq_Suc)

lemma worker_steps_1:
  "worker_steps 1 tid s =
     (case worker_step tid s of None \<Rightarrow> None | Some (Inl e) \<Rightarrow> None | Some (Inr s') \<Rightarrow> Some s')"
  by (simp split: option.splits sum.splits)

lemma step_TNOWMS:
  assumes "step s s'"
  shows "TNOWMS s' = TNOWMS s"
  using assms
proof (cases rule: step.cases)
  case (step_init num)
  then show ?thesis by (simp add: init_def)
next
  case (step_start avail)
  then show ?thesis by simp
next
  case (step_exec timeoutMs f)
  then show ?thesis by simp
next
  case step_terminate
  then show ?thesis by (rule terminate_Some(5))
next
  case (step_worker tid)
  then show ?thesis by (rule worker_step_pool(4))
qed

text \<open>
  \<^verbatim>\<open>TNOWMS\<close> is the clock as the constructor read it, in every state the system reaches.
\<close>

lemma reachable_TNOWMS:
  assumes "reachable s"
  shows "\<exists>tv. TNOWMS s = getNowMs tv"
proof -
  from assms obtain tv and w :: 'a where "step\<^sup>*\<^sup>* (new_ThreadPool tv w) s"
    unfolding reachable_def by blast
  then have "TNOWMS s = TNOWMS (new_ThreadPool tv w :: ('a, 'b, 'c) system)"
    by (induction rule: rtranclp_induct) (simp_all add: step_TNOWMS)
  then show ?thesis by (auto simp: new_ThreadPool_def)
qed

text \<open>
  What the expiry test of \<^verbatim>\<open>run\<close> does with a deadline that \<^verbatim>\<open>exec\<close> computed: a task with a
  positive timeout, short of overflow, is never discarded.
\<close>

lemma positive_timeout_never_expires:
  assumes "0 <s timeoutMs" "sint (TNOWMS s) + sint timeoutMs < 2 ^ 63"
  shows "\<not> expired \<lparr>func = i, expireTime = TNOWMS s + timeoutMs\<rparr> s"
proof -
  from assms(1) have pos: "0 < sint timeoutMs" by (simp add: word_sless_alt)
  have "- (2 ^ 63) \<le> sint (TNOWMS s)" using sint_ge [of "TNOWMS s"] by simp
  with pos assms(2) have "sint (TNOWMS s + timeoutMs) = sint (TNOWMS s) + sint timeoutMs"
    by (simp add: sint_word_ariths signed_take_bit_int_eq_self)
  with pos show ?thesis by (simp add: expired_def word_sless_alt)
qed

text \<open>With an empty queue \<^verbatim>\<open>waitForAllDone\<close> returns true at once, whatever \<^verbatim>\<open>atomic_\<close> holds.\<close>

lemma waitForAllDone_empty_queue: "tasks p = [] \<Longrightarrow> waitForAllDone millsecond p wakes = Some True"
  by (simp add: waitForAllDone_def)

text \<open>
  Claim C1 fails on the code. A pool constructed when the clock reads 1000 ms stores
  1100 as the expiry of a task submitted with a timeout of 100 ms, whenever it is
  submitted: \<^verbatim>\<open>TNOWMS\<close> is a member set once by the constructor. For a submission when the
  clock reads 5000 ms the specification's deadline is 5100.
\<close>

theorem exec_deadline_from_construction_time:
  "TNOWMS pool1 = 1000
   \<and> tasks timed_pool = [\<lparr>func = 0, expireTime = 1100\<rparr>]
   \<and> submit_expireAt (getNowMs \<lparr>tv_sec = 5, tv_usec = 0\<rparr>) 100 = 5100"
  by (simp add: run_defs timed_pool_def submit_expireAt_def)

text \<open>
  Claim C2 fails on the code. The task submitted with a timeout of 100 ms to the pool
  constructed at 1000 ms has expiry 1100. When the worker reaches it with the clock at
  5000 ms its deadline has passed, but the test of \<^verbatim>\<open>run\<close> compares 1100 with \<^verbatim>\<open>TNOWMS\<close>,
  still 1000: the work item runs, the counter goes up and the future holds the value 10.
\<close>

theorem late_task_still_runs:
  "tasks timed_pool = [\<lparr>func = 0, expireTime = 1100\<rparr>]
   \<and> deadline_passed (getNowMs \<lparr>tv_sec = 5, tv_usec = 0\<rparr>) \<lparr>func = 0, expireTime = 1100\<rparr>
   \<and> \<not> expired \<lparr>func = 0, expireTime = 1100\<rparr> timed_pool
   \<and> map_option world (worker_steps 4 0 timed_pool) = Some 1
   \<and> map_option (future_get 0) (worker_steps 4 0 timed_pool) = Some (Some (Inr 10))"
  by (simp add: run_defs timed_pool_def deadline_passed_def worker_steps_numeral worker_steps_1)

text \<open>
  Claim C3 fails on the code. With the only task dequeued and counted in \<^verbatim>\<open>atomic_\<close> but
  not yet run, the pool is not drained, yet the queue is empty and \<^verbatim>\<open>waitForAllDone(0)\<close>
  returns true.
\<close>

theorem waitForAllDone_true_while_running:
  "worker_steps 3 0 queued_pool = Some running_pool
   \<and> atomic running_pool = 1 \<and> world running_pool = 0 \<and> future_get 0 running_pool = None
   \<and> \<not> drained running_pool
   \<and> waitForAllDone 0 running_pool [] = Some True"
  by (simp add: run_defs running_pool_def drained_def worker_steps_numeral worker_steps_1 waitForAllDone_def)


subsection \<open>Every envelope is run at most once\<close>

lemma holder_setpc:
  "holder (setpc tid pc s) i t =
     (if i = tid then tid < length (procs s) \<and> (pc = AtIncr t \<or> pc = AtTry t) else holder s i t)"
  by (auto simp: holder_def)

lemma holder_cong: "procs a = procs b \<Longrightarrow> holder a = holder b"
  by (auto simp: holder_def fun_eq_iff)

lemma fresh_task_cong: "heap a = heap b \<Longrightarrow> fresh_task a = fresh_task b"
  by (auto simp: fresh_task_def fun_eq_iff)

lemma consistent_cong:
  "tasks a = tasks b \<Longrightarrow> heap a = heap b \<Longrightarrow> procs a = procs b \<Longrightarrow> threads a = threads b \<Longrightarrow>
   consistent a = consistent b"
  by (simp add: consistent_def holder_cong [of a b] fresh_task_cong [of a b])

text \<open>A thread that lets go of its envelope, or holds none before and after.\<close>

lemma consistent_release:
  assumes "consistent s" "\<And>t. pc \<noteq> AtIncr t" "\<And>t. pc \<noteq> AtTry t"
    "tasks a = tasks s" "heap a = heap s" "procs a = procs s" "threads a = threads s"
  shows "consistent (setpc tid pc a)"
proof -
  have h: "holder (setpc tid pc a) i t \<Longrightarrow> holder s i t" for i t
    using assms(2,3,6) by (cases "i = tid") (auto simp: holder_def)
  have f: "fresh_task (setpc tid pc a) = fresh_task s"
    by (rule fresh_task_cong) (simp add: assms(5))
  show ?thesis
    unfolding consistent_def f
    using assms(1) h by (simp add: consistent_def assms(4,7,6)) blast
qed

text \<open>A thread takes the front envelope of the queue.\<close>

lemma consistent_take:
  assumes c: "consistent s" and q: "tasks s = t # ts" and tid: "tid < length (procs s)"
    and free: "\<And>u. \<not> holder s tid u"
  shows "consistent (setpc tid (AtIncr t) (s\<lparr>tasks := ts\<rparr>))"
proof -
  let ?s' = "setpc tid (AtIncr t) (s\<lparr>tasks := ts\<rparr>)"
  have h: "holder ?s' i u = (if i = tid then u = t else holder s i u)" for i u
    using tid by (auto simp: holder_def)
  have f: "fresh_task ?s' = fresh_task s"
    by (rule fresh_task_cong) simp
  from c q have d: "distinct (map func ts)" and nt: "func t \<notin> func ` set ts"
    and fq: "\<forall>u \<in> set (t # ts). fresh_task s u"
    and hq: "\<And>i u. holder s i u \<Longrightarrow> fresh_task s u \<and> func u \<notin> func ` set (t # ts)"
    and hh: "\<And>i j u v. holder s i u \<Longrightarrow> holder s j v \<Longrightarrow> i \<noteq> j \<Longrightarrow> func u \<noteq> func v"
    and th: "\<And>k. Some k \<in> set (threads s) \<Longrightarrow> k < length (procs s)"
    by (auto simp: consistent_def)
  have 1: "\<forall>u \<in> set ts. fresh_task s u" using fq by simp
  have 2: "holder ?s' i u \<Longrightarrow> fresh_task s u \<and> func u \<notin> func ` set ts" for i u
    using hq [of i u] fq nt by (auto simp: h split: if_splits)
  have 3: "holder ?s' i u \<Longrightarrow> holder ?s' j v \<Longrightarrow> i \<noteq> j \<Longrightarrow> func u \<noteq> func v" for i j u v
    using hh [of i u j v] hq [of i u] hq [of j v] by (auto simp: h split: if_splits)
  show ?thesis
    unfolding consistent_def f
    using d 1 2 3 th by simp
qed

text \<open>A thread keeps its envelope.\<close>

lemma consistent_keep:
  assumes c: "consistent s" and at: "holder s tid t" and pc: "pc = AtIncr t \<or> pc = AtTry t"
    and same: "tasks a = tasks s" "heap a = heap s" "procs a = procs s" "threads a = threads s"
  shows "consistent (setpc tid pc a)"
proof -
  have tid: "tid < length (procs s)" using at by (simp add: holder_def)
  have h: "holder (setpc tid pc a) = holder s"
    using at pc same(3) by (auto simp: holder_def fun_eq_iff nth_list_update)
  have f: "fresh_task (setpc tid pc a) = fresh_task s"
    by (rule fresh_task_cong) (simp add: same(2))
  show ?thesis
    unfolding consistent_def f h using c by (simp add: consistent_def same)
qed

text \<open>A thread invokes the packaged task of its envelope.\<close>

lemma consistent_invoke:
  assumes c: "consistent s" and at: "holder s tid t"
  shows "consistent (setpc tid AtDecr (s\<lparr>heap := (heap s)[func t := pt], world := w\<rparr>))"
proof -
  let ?s' = "setpc tid AtDecr (s\<lparr>heap := (heap s)[func t := pt], world := w\<rparr>)"
  have h: "holder ?s' i u \<Longrightarrow> holder s i u \<and> i \<noteq> tid" for i u
    by (cases "i = tid") (auto simp: holder_def)
  from c have fq: "\<And>u. u \<in> set (tasks s) \<Longrightarrow> fresh_task s u"
    and hq: "\<And>i u. holder s i u \<Longrightarrow> fresh_task s u \<and> func u \<notin> func ` set (tasks s)"
    and hh: "\<And>i j u v. holder s i u \<Longrightarrow> holder s j v \<Longrightarrow> i \<noteq> j \<Longrightarrow> func u \<noteq> func v"
    by (auto simp: consistent_def)
  have f: "fresh_task s u \<Longrightarrow> func u \<noteq> func t \<Longrightarrow> fresh_task ?s' u" for u
    by (simp add: fresh_task_def)
  have 1: "\<forall>u \<in> set (tasks s). fresh_task ?s' u"
    using fq hq [OF at] f by (metis imageI)
  have 2: "holder ?s' i u \<Longrightarrow> fresh_task ?s' u \<and> func u \<notin> func ` set (tasks s)" for i u
    using h [of i u] hq [of i u] hh [of i u tid t] at f by blast
  have 3: "holder ?s' i u \<Longrightarrow> holder ?s' j v \<Longrightarrow> i \<noteq> j \<Longrightarrow> func u \<noteq> func v" for i j u v
    using h [of i u] h [of j v] hh [of i u j v] by blast
  show ?thesis
    unfolding consistent_def
    using c 1 2 3 by (simp add: consistent_def)
qed

lemma worker_step_consistent:
  assumes c: "consistent s" and st: "worker_step tid s = Some (Inr s')"
  shows "consistent s'"
proof -
  from st have tid: "tid < length (procs s)" by (rule worker_step_pool)
  show ?thesis
  proof (cases "procs s ! tid")
    case AtWhile
    with st tid have "s' = setpc tid AtGet s \<or> s' = setpc tid Exited s"
      by (auto simp: worker_step_def split: if_splits)
    then show ?thesis using consistent_release [OF c, of _ s tid] by auto
  next
    case AtGet
    then have free: "\<not> holder s tid u" for u by (simp add: holder_def)
    show ?thesis
    proof (cases "bTerminate s \<or> tasks s = []")
      case True
      with st tid AtGet have "s' = setpc tid AtWhile s"
        by (auto simp: worker_step_def get_def split: if_splits)
      then show ?thesis using consistent_release [OF c, of AtWhile s tid] by simp
    next
      case False
      then obtain t ts where q: "tasks s = t # ts" by (cases "tasks s") auto
      with False st tid AtGet have "s' = setpc tid (AtIncr t) (s\<lparr>tasks := ts\<rparr>)"
        by (simp add: worker_step_def get_simps)
      then show ?thesis using consistent_take [OF c q tid free] by simp
    qed
  next
    case (AtIncr t)
    with tid have at: "holder s tid t" by (simp add: holder_def)
    from st tid AtIncr have "s' = setpc tid (AtTry t) (s\<lparr>atomic := atomic s + 1\<rparr>)"
      by (simp add: worker_step_def)
    then show ?thesis using consistent_keep [OF c at, of "AtTry t" "s\<lparr>atomic := atomic s + 1\<rparr>"] by simp
  next
    case (AtTry t)
    with tid have at: "holder s tid t" by (simp add: holder_def)
    from st tid AtTry
    have "s' = setpc tid AtDecr s
      \<or> (\<exists>pt w. s' = setpc tid AtDecr (s\<lparr>heap := (heap s)[func t := pt], world := w\<rparr>))"
      by (auto simp: worker_step_def split: if_splits sum.splits prod.splits)
    then show ?thesis
      using consistent_release [OF c, of AtDecr s tid] consistent_invoke [OF c at] by auto
  next
    case AtDecr
    with st tid have "s' = setpc tid AtWhile (s\<lparr>atomic := atomic s - 1\<rparr>)"
      by (simp add: worker_step_def)
    then show ?thesis
      using consistent_release [OF c, of AtWhile "s\<lparr>atomic := atomic s - 1\<rparr>" tid] by simp
  next
    case Exited
    with st tid show ?thesis by (simp add: worker_step_def)
  qed
qed

lemma exec_consistent:
  assumes c: "consistent s"
  shows "consistent (snd (exec timeoutMs f s))"
proof -
  let ?s' = "snd (exec timeoutMs f s)"
  let ?e = "\<lparr>func = length (heap s), expireTime = (if timeoutMs = 0 then 0 else TNOWMS s + timeoutMs)\<rparr>"
  have h: "holder ?s' = holder s" by (rule holder_cong) simp
  have f: "fresh_task s u \<Longrightarrow> fresh_task ?s' u" for u
    by (simp add: fresh_task_def nth_append)
  have fe: "fresh_task ?s' ?e" by (simp add: fresh_task_def)
  have lt: "fresh_task s u \<Longrightarrow> func u \<noteq> length (heap s)" for u
    by (auto simp: fresh_task_def)
  from c have d: "distinct (map func (tasks s))"
    and fq: "\<And>u. u \<in> set (tasks s) \<Longrightarrow> fresh_task s u"
    and hq: "\<And>i u. holder s i u \<Longrightarrow> fresh_task s u \<and> func u \<notin> func ` set (tasks s)"
    and hh: "\<And>i j u v. holder s i u \<Longrightarrow> holder s j v \<Longrightarrow> i \<noteq> j \<Longrightarrow> func u \<noteq> func v"
    and th: "\<And>k. Some k \<in> set (threads s) \<Longrightarrow> k < length (procs s)"
    by (auto simp: consistent_def)
  have "length (heap s) \<notin> func ` set (tasks s)"
  proof
    assume "length (heap s) \<in> func ` set (tasks s)"
    then obtain x where "x \<in> set (tasks s)" "func x = length (heap s)" by auto
    with fq [of x] lt [of x] show False by simp
  qed
  with d have 0: "distinct (map func (tasks ?s'))" by simp
  have 1: "\<forall>u \<in> set (tasks ?s'). fresh_task ?s' u"
    using fq f fe by auto
  have 2: "holder s i u \<Longrightarrow> fresh_task ?s' u \<and> func u \<notin> func ` set (tasks ?s')" for i u
    using hq [of i u] f lt by auto
  show ?thesis
    unfolding consistent_def h
    using 0 1 2 hh th by simp
qed

lemma start_consistent:
  assumes c: "consistent s"
  shows "consistent (snd (start avail s))"
proof (cases "threads s = []")
  case False
  with c show ?thesis by (simp add: start_snd)
next
  case True
  let ?s' = "snd (spawn_loop (threadNum s) avail s)"
  define m where "m = min (threadNum s) avail"
  have pr: "procs ?s' = procs s @ replicate m AtWhile"
    by (simp add: spawn_loop_procs m_def)
  have h: "holder ?s' i u = holder s i u" for i u
    unfolding holder_def pr by (auto simp: nth_append)
  then have hf: "holder ?s' = holder s" by (simp add: fun_eq_iff)
  have f: "fresh_task ?s' = fresh_task s" by (rule fresh_task_cong) simp
  have th: "Some k \<in> set (threads ?s') \<Longrightarrow> k < length (procs ?s')" for k
    using True by (auto simp: spawn_loop_threads spawn_loop_procs)
  have "consistent ?s'"
    unfolding consistent_def hf f using c th by (simp add: consistent_def)
  with True show ?thesis by (simp add: start_snd)
qed

lemma init_consistent: "consistent s \<Longrightarrow> consistent (snd (init num s))"
  using consistent_cong [of "s\<lparr>threadNum := num\<rparr>" s] by (simp add: init_def)

lemma terminate_consistent:
  assumes c: "consistent s" and t: "terminate s = Some s'"
  shows "consistent s'"
proof -
  from t obtain m where m: "join_all (threads s) (s\<lparr>bTerminate := True\<rparr>) = Some m"
    and s': "s' = m\<lparr>threads := []\<rparr>"
    by (auto simp: terminate_def Let_def split: option.splits)
  have "consistent (s\<lparr>bTerminate := True\<rparr>)"
    using c consistent_cong [of "s\<lparr>bTerminate := True\<rparr>" s] by simp
  then have cm: "consistent m"
    by (rule join_all_induct [where P = consistent, OF m]) (rule worker_step_consistent)
  have "holder s' = holder m" by (rule holder_cong) (simp add: s')
  moreover have "fresh_task s' = fresh_task m" by (rule fresh_task_cong) (simp add: s')
  ultimately
  show ?thesis
    unfolding consistent_def using cm by (simp add: consistent_def s')
qed

lemma step_consistent:
  assumes "step s s'" "consistent s"
  shows "consistent s'"
  using assms
proof (cases rule: step.cases)
  case (step_init num)
  with assms(2) show ?thesis by (simp add: init_consistent)
next
  case (step_start avail)
  with assms(2) show ?thesis by (simp add: start_consistent)
next
  case (step_exec timeoutMs f)
  with assms(2) show ?thesis by (simp add: exec_consistent)
next
  case step_terminate
  with assms(2) show ?thesis by (rule terminate_consistent)
next
  case (step_worker tid)
  with assms(2) show ?thesis by (rule worker_step_consistent)
qed

lemma new_consistent: "consistent (new_ThreadPool tv w)"
  by (simp add: consistent_def new_ThreadPool_def holder_def)

lemma steps_consistent: "step\<^sup>*\<^sup>* a s \<Longrightarrow> consistent a \<Longrightarrow> consistent s"
proof (induction rule: rtranclp_induct)
  case base
  then show ?case .
next
  case (step y z)
  from step.hyps(2) step.IH [OF step.prems] show ?case by (rule step_consistent)
qed

lemma reachable_consistent:
  assumes "reachable s"
  shows "consistent s"
proof -
  from assms obtain tv w where "step\<^sup>*\<^sup>* (new_ThreadPool tv w) s"
    unfolding reachable_def by blast
  then show ?thesis using new_consistent by (rule steps_consistent)
qed

subsection \<open>Faults, and workers at shutdown\<close>


text \<open>With the shutdown flag set, every worker that has not left \<^verbatim>\<open>run\<close> moves closer to it.\<close>

lemma flag_progress:
  assumes c: "consistent s" and fl: "bTerminate s" and tid: "tid < length (procs s)"
    and ne: "procs s ! tid \<noteq> Exited"
  shows "\<exists>s'. worker_step tid s = Some (Inr s')
    \<and> steps_to_exit (procs s' ! tid) < steps_to_exit (procs s ! tid)"
proof (cases "procs s ! tid")
  case AtWhile
  with fl tid show ?thesis by (simp add: worker_step_def isTerminate_def)
next
  case AtGet
  with fl tid show ?thesis by (simp add: worker_step_def get_simps)
next
  case (AtIncr t)
  with tid show ?thesis by (simp add: worker_step_def)
next
  case (AtTry t)
  with tid have "holder s tid t" by (simp add: holder_def)
  with c have "fresh_task s t" by (auto simp: consistent_def)
  with AtTry tid show ?thesis
    by (auto simp: worker_step_def fresh_task_def invoke_def split: prod.splits)
next
  case AtDecr
  with tid show ?thesis by (simp add: worker_step_def)
next
  case Exited
  with ne show ?thesis by simp
qed

lemma join_returns:
  assumes "consistent s" "bTerminate s" "tid < length (procs s)"
  shows "\<exists>s'. join tid s = Some s'"
  using assms
proof (induction "steps_to_exit (procs s ! tid)" arbitrary: s rule: less_induct)
  case less
  show ?case
  proof (cases "procs s ! tid = Exited")
    case True
    with less.prems(3) show ?thesis by (simp add: join_Exited)
  next
    case False
    from flag_progress [OF less.prems False] obtain a
      where a: "worker_step tid s = Some (Inr a)"
        and lt: "steps_to_exit (procs a ! tid) < steps_to_exit (procs s ! tid)"
      by blast
    have "consistent a" using less.prems(1) a by (rule worker_step_consistent)
    moreover have "bTerminate a" using a less.prems(2) by (simp add: worker_step_pool)
    moreover have "tid < length (procs a)" using a less.prems(3) by (simp add: worker_step_pool)
    ultimately have "\<exists>s'. join tid a = Some s'" using less.hyps [OF lt] by blast
    with join_step [OF a False] show ?thesis by simp
  qed
qed

lemma join_all_returns:
  assumes "consistent s" "bTerminate s" "\<forall>tid. Some tid \<in> set ts \<longrightarrow> tid < length (procs s)"
  shows "\<exists>s'. join_all ts s = Some s'"
  using assms
proof (induction ts arbitrary: s)
  case Nil
  then show ?case by simp
next
  case (Cons t ts)
  show ?case
  proof (cases t)
    case None
    with Cons show ?thesis by (simp add: joinable_def)
  next
    case (Some tid)
    with Cons.prems have tid: "tid < length (procs s)" by simp
    from join_returns [OF Cons.prems(1,2) tid] obtain m where m: "join tid s = Some m" by blast
    let ?P = "\<lambda>a. consistent a \<and> bTerminate a \<and> length (procs a) = length (procs s)"
    have "?P m"
    proof (rule join_induct [where P = ?P, OF m])
      show "?P s" using Cons.prems by simp
    next
      fix a b
      assume "?P a" and "worker_step tid a = Some (Inr b)"
      then show "?P b" by (simp add: worker_step_consistent [of a tid b] worker_step_pool)
    qed
    with Cons.prems(3) have "\<exists>s'. join_all ts m = Some s'"
      by (intro Cons.IH) simp_all
    with Some m show ?thesis by (simp add: joinable_def)
  qed
qed

lemma terminate_returns:
  assumes "consistent s"
  shows "\<exists>s'. terminate s = Some s'"
proof -
  let ?s1 = "s\<lparr>bTerminate := True\<rparr>"
  have "consistent ?s1" using assms consistent_cong [of ?s1 s] by simp
  moreover have "\<forall>tid. Some tid \<in> set (threads ?s1) \<longrightarrow> tid < length (procs ?s1)"
    using assms by (simp add: consistent_def)
  ultimately have "\<exists>m. join_all (threads ?s1) ?s1 = Some m"
    by (intro join_all_returns) simp_all
  then show ?thesis by (auto simp: terminate_def Let_def)
qed



lemma reachable_queued_pool: "reachable queued_pool"
  unfolding queued_pool_def exec0_def using reachable_pool1 step_exec by (rule reachable_step)

lemma reachable_stopped_pool: "reachable stopped_pool"
proof -
  have "terminate queued_pool = Some stopped_pool"
    by (simp add: terminate_queued_pool stopped_pool_def)
  then have "step queued_pool stopped_pool" by (rule step_terminate)
  with reachable_queued_pool show ?thesis by (rule reachable_step)
qed



subsection \<open>Submitting after shutdown\<close>

text \<open>Once the shutdown flag is set it stays set, and nothing leaves the queue.\<close>

lemma step_flag_queue:
  assumes "step a b" "bTerminate a"
  shows "bTerminate b \<and> set (tasks a) \<subseteq> set (tasks b)"
  using assms(1)
proof (cases rule: step.cases)
  case (step_init num)
  with assms(2) show ?thesis by (simp add: init_def)
next
  case (step_start avail)
  with assms(2) show ?thesis by simp
next
  case (step_exec timeoutMs f)
  with assms(2) show ?thesis by auto
next
  case step_terminate
  from terminate_Some(1,3) [OF step_terminate] show ?thesis by simp
next
  case (step_worker tid)
  from worker_step_pool(3) [OF step_worker] worker_step_tasks_flag [OF step_worker assms(2)] assms(2)
  show ?thesis by simp
qed

lemma steps_flag_queue:
  "step\<^sup>*\<^sup>* a b \<Longrightarrow> bTerminate a \<Longrightarrow> bTerminate b \<and> set (tasks a) \<subseteq> set (tasks b)"
proof (induction rule: rtranclp_induct)
  case base
  then show ?case by simp
next
  case (step y z)
  from step.IH [OF step.prems] step_flag_queue [OF step.hyps(2)] show ?case by blast
qed

lemma queued_future_unset:
  assumes "consistent s" "t \<in> set (tasks s)"
  shows "future_get (func t) s = None"
  using assms by (auto simp: consistent_def fresh_task_def future_get_def)

text \<open>
  Claim C10. \<^verbatim>\<open>exec\<close> never rejects: in every state it lengthens the queue by one and
  returns a future that is not yet set. With the shutdown flag set, \<^verbatim>\<open>get\<close> returns false
  and takes nothing. A task submitted to a pool whose shutdown flag is set stays in the
  queue in every later state, the flag stays set, and the future of the task is never
  set: the task is never run.
\<close>

theorem submit_after_terminate:
  "getJobNum (snd (exec timeoutMs f s)) = getJobNum s + 1
   \<and> future_get (fst (exec timeoutMs f s)) (snd (exec timeoutMs f s)) = None
   \<and> (bTerminate s \<longrightarrow> get s = Some (False, None, s))
   \<and> (reachable s \<longrightarrow> bTerminate s \<longrightarrow> step\<^sup>*\<^sup>* (snd (exec timeoutMs f s)) s' \<longrightarrow>
        bTerminate s'
        \<and> \<lparr>func = fst (exec timeoutMs f s),
            expireTime = (if timeoutMs = 0 then 0 else TNOWMS s + timeoutMs)\<rparr> \<in> set (tasks s')
        \<and> future_get (fst (exec timeoutMs f s)) s' = None)"
proof (intro conjI impI)
  show "getJobNum (snd (exec timeoutMs f s)) = getJobNum s + 1"
    by (simp add: getJobNum_def)
  show "future_get (fst (exec timeoutMs f s)) (snd (exec timeoutMs f s)) = None"
    by (simp add: future_get_def)
  show "get s = Some (False, None, s)" if "bTerminate s"
    using that by (simp add: get_simps)
next
  let ?s1 = "snd (exec timeoutMs f s)"
  let ?e = "\<lparr>func = fst (exec timeoutMs f s),
            expireTime = (if timeoutMs = 0 then 0 else TNOWMS s + timeoutMs)\<rparr>"
  assume r: "reachable s" and fl: "bTerminate s" and st: "step\<^sup>*\<^sup>* ?s1 s'"
  have "consistent ?s1" using reachable_consistent [OF r] by (rule exec_consistent)
  with st have c: "consistent s'" by (rule steps_consistent)
  have "bTerminate ?s1" using fl by simp
  with st have k: "bTerminate s' \<and> set (tasks ?s1) \<subseteq> set (tasks s')" by (rule steps_flag_queue)
  then show "bTerminate s'" by simp
  have "?e \<in> set (tasks ?s1)" by simp
  with k show q: "?e \<in> set (tasks s')" by blast
  from queued_future_unset [OF c q] show "future_get (fst (exec timeoutMs f s)) s' = None"
    by simp
qed

theorem submit_after_terminate_witness:
  "reachable stopped_pool \<and> bTerminate stopped_pool
   \<and> step\<^sup>*\<^sup>* (snd (exec 0 tick stopped_pool)) (snd (start 1 (snd (exec 0 tick stopped_pool))))
   \<and> getJobNum stopped_pool = 1 \<and> getJobNum (snd (exec 0 tick stopped_pool)) = 2
   \<and> fst (exec 0 tick stopped_pool) = 1
   \<and> get stopped_pool = Some (False, None, stopped_pool)
   \<and> procs (snd (start 1 (snd (exec 0 tick stopped_pool)))) = [Exited, AtWhile]
   \<and> \<lparr>func = 1, expireTime = 0\<rparr> \<in> set (tasks (snd (start 1 (snd (exec 0 tick stopped_pool)))))
   \<and> future_get 1 (snd (start 1 (snd (exec 0 tick stopped_pool)))) = None"
proof -
  have st: "step\<^sup>*\<^sup>* (snd (exec 0 tick stopped_pool)) (snd (start 1 (snd (exec 0 tick stopped_pool))))"
    using step_start by (rule r_into_rtranclp)
  have h: "bTerminate stopped_pool" "getJobNum stopped_pool = 1" "fst (exec 0 tick stopped_pool) = 1"
    "procs (snd (start 1 (snd (exec 0 tick stopped_pool)))) = [Exited, AtWhile]"
    by (simp_all add: run_defs stopped_pool_def)
  from submit_after_terminate
    [of 0 tick stopped_pool "snd (start 1 (snd (exec 0 tick stopped_pool)))"]
    reachable_stopped_pool st h
  show ?thesis by simp
qed

subsection \<open>Terminating twice\<close>

text \<open>
  Claim C6. After \<^verbatim>\<open>terminate\<close> has returned, a second call, or the destructor, returns as
  well and leaves the state as it is; the number of worker threads is 0 after the first
  call and so after the second. A call that finds the thread vector empty only sets the
  flag. In every state the system reaches, \<^verbatim>\<open>terminate\<close> returns.
\<close>

theorem terminate_idempotent:
  "(terminate s = Some s' \<longrightarrow>
      terminate s' = Some s' \<and> ThreadPool_dtor s' = Some s' \<and> getThreadNum s' = 0)
   \<and> (threads s = [] \<longrightarrow> terminate s = Some (s\<lparr>bTerminate := True\<rparr>))
   \<and> (reachable s \<longrightarrow> (\<exists>s1. terminate s = Some s1))"
proof (intro conjI impI)
  assume t: "terminate s = Some s'"
  then show "terminate s' = Some s'" by (rule terminate_twice)
  then show "ThreadPool_dtor s' = Some s'" by (simp add: ThreadPool_dtor_def)
  from terminate_Some(2) [OF t] show "getThreadNum s' = 0" by (simp add: getThreadNum_def)
next
  assume "threads s = []"
  then show "terminate s = Some (s\<lparr>bTerminate := True\<rparr>)" by (rule terminate_no_threads)
next
  assume "reachable s"
  then have "consistent s" by (rule reachable_consistent)
  then show "\<exists>s1. terminate s = Some s1" by (rule terminate_returns)
qed

theorem terminate_idempotent_witness:
  "reachable queued_pool \<and> terminate queued_pool = Some stopped_pool
   \<and> terminate stopped_pool = Some stopped_pool \<and> ThreadPool_dtor stopped_pool = Some stopped_pool
   \<and> getThreadNum queued_pool = 1 \<and> getThreadNum stopped_pool = 0
   \<and> threads fresh_pool = [] \<and> terminate fresh_pool = Some (fresh_pool\<lparr>bTerminate := True\<rparr>)"
proof -
  have t: "terminate queued_pool = Some stopped_pool"
    by (simp add: terminate_queued_pool stopped_pool_def)
  have h: "getThreadNum queued_pool = 1" "threads fresh_pool = []"
    by (simp_all add: run_defs)
  from terminate_idempotent [of queued_pool stopped_pool] terminate_idempotent [of fresh_pool]
    reachable_queued_pool t h
  show ?thesis by simp
qed

end
